theory Spec2Isabelle
  imports Complex_Main "HOL-Library.Sublist" "HOL-Library.AList"
begin

section \<open>Values of the JavaScript program\<close>

text \<open>
  Strings are lists of code units; a \<^typ>\<open>char\<close> stands for a code unit in the range
  U+0000..U+00FF.  The parsed query string \<open>req.query\<close> is what the \<open>qs\<close> parser of Express
  produces: strings, arrays and nested objects.  An object is an association list in
  property order.
\<close>

datatype qval = QStr string | QArr "qval list" | QObj "(string \<times> qval) list"

text \<open>
  A JavaScript number that need not be whole: NaN, an infinity, or a finite double, given
  by its exact value.  The two zeros are not told apart.
\<close>

datatype jsnum = NaN | PosInf | NegInf | Num real

text \<open>Documents of the data store and literal filter documents may hold numbers as well.\<close>

datatype bson = BStr string | BNum jsnum | BArr "bson list" | BObj "(string \<times> bson) list"

record doc =
  doc_id :: string
  doc_fields :: "(string \<times> bson) list"

subsection \<open>Character classes\<close>

definition code :: "char \<Rightarrow> nat" where
  "code c = of_char c"

text \<open>The class \<open>\w\<close> of a regular expression without the unicode flag.\<close>

definition is_word :: "char \<Rightarrow> bool" where
  "is_word c \<longleftrightarrow>
     (48 \<le> code c \<and> code c \<le> 57) \<or> (65 \<le> code c \<and> code c \<le> 90) \<or>
     code c = 95 \<or> (97 \<le> code c \<and> code c \<le> 122)"

definition is_digit :: "char \<Rightarrow> bool" where
  "is_digit c \<longleftrightarrow> 48 \<le> code c \<and> code c \<le> 57"

text \<open>White space and line terminators skipped by \<open>parseInt\<close> and by the numeric
  coercion of a string (within U+0000..U+00FF).\<close>

definition is_space :: "char \<Rightarrow> bool" where
  "is_space c \<longleftrightarrow> code c \<in> {9, 10, 11, 12, 13, 32, 160}"

fun digits_value :: "nat \<Rightarrow> string \<Rightarrow> nat" where
  "digits_value acc [] = acc"
| "digits_value acc (c # cs) = digits_value (10 * acc + (code c - 48)) cs"

fun join :: "string \<Rightarrow> string list \<Rightarrow> string" where
  "join sep [] = []"
| "join sep [x] = x"
| "join sep (x # y # ys) = x @ sep @ join sep (y # ys)"

section \<open>JSON.stringify on query objects\<close>

definition hex_digit :: "nat \<Rightarrow> char" where
  "hex_digit n = (if n < 10 then char_of (48 + n) else char_of (87 + n))"

text \<open>QuoteJSONString: the quote, the backslash and the code units below U+0020 are escaped.\<close>

definition escape_char :: "char \<Rightarrow> string" where
  "escape_char c =
     (if c = CHR 0x22 then [CHR 0x5C, CHR 0x22]
      else if c = CHR 0x5C then [CHR 0x5C, CHR 0x5C]
      else if c = CHR 0x08 then [CHR 0x5C, CHR ''b'']
      else if c = CHR 0x0C then [CHR 0x5C, CHR ''f'']
      else if c = CHR 0x0A then [CHR 0x5C, CHR ''n'']
      else if c = CHR 0x0D then [CHR 0x5C, CHR ''r'']
      else if c = CHR 0x09 then [CHR 0x5C, CHR ''t'']
      else if code c < 32 then
        [CHR 0x5C, CHR ''u'', CHR ''0'', CHR ''0'', hex_digit (code c div 16), hex_digit (code c mod 16)]
      else [c])"

definition quote_json :: "string \<Rightarrow> string" where
  "quote_json s = CHR 0x22 # concat (map escape_char s) @ [CHR 0x22]"

primrec stringify :: "qval \<Rightarrow> string" where
  "stringify (QStr s) = quote_json s"
| "stringify (QArr xs) = ''['' @ join '','' (map stringify xs) @ '']''"
| "stringify (QObj kvs) =
     ''{'' @ join '','' (map (\<lambda>kv. quote_json (fst kv) @ '':'' @ snd kv) (map (map_prod id stringify) kvs)) @ ''}''"

section \<open>The operator rewriting of getBootcamps\<close>

text \<open>
  \<^verbatim>\<open>queryStr.replace(/\b(gt|gte|lt|lte|in)\b/g, (match) => `$${match}`)\<close>

  The alternatives are tried in the order of the pattern.  \<open>\b\<close> holds at a position when
  exactly one of the code units before and after it is a word character; the start and the
  end of the string count as non-word.  The first argument of the functions below tells
  whether the code unit before the current position is a word character.
\<close>

definition operators :: "string list" where
  "operators = [''gt'', ''gte'', ''lt'', ''lte'', ''in'']"

fun word_boundary :: "bool \<Rightarrow> string \<Rightarrow> bool" where
  "word_boundary pw [] = pw"
| "word_boundary pw (c # cs) = (pw \<noteq> is_word c)"

definition match_at :: "bool \<Rightarrow> string \<Rightarrow> string option" where
  "match_at pw s =
     (if word_boundary pw s
      then find (\<lambda>kw. prefix kw s \<and> word_boundary True (drop (length kw) s)) operators
      else None)"

lemma match_at_length: "match_at pw s = Some kw \<Longrightarrow> 0 < length kw \<and> kw \<in> set operators"
  by (auto simp: match_at_def operators_def find_Some_iff split: if_splits)

function replace_ops :: "bool \<Rightarrow> string \<Rightarrow> string" where
  "replace_ops pw [] = []"
| "replace_ops pw (c # cs) =
     (case match_at pw (c # cs) of
        Some kw \<Rightarrow> CHR ''$'' # kw @ replace_ops True (drop (length kw) (c # cs))
      | None \<Rightarrow> c # replace_ops (is_word c) cs)"
  by pat_completeness auto
termination
  by (relation "measure (\<lambda>(pw, s). length s)") (auto dest: match_at_length)

section \<open>JSON.parse on the rewritten text\<close>

text \<open>
  The texts parsed here are serialised query objects with \<open>$\<close> signs inserted: they hold
  objects, arrays and strings, and no insignificant white space.  The parser below reads
  exactly this fragment of JSON; \<open>None\<close> stands for the SyntaxError of \<open>JSON.parse\<close>.  A member
  whose key is already present overwrites the earlier value in place, as the property
  definition of \<open>JSON.parse\<close> does.
\<close>

definition hex_value :: "char \<Rightarrow> nat option" where
  "hex_value c =
     (if 48 \<le> code c \<and> code c \<le> 57 then Some (code c - 48)
      else if 97 \<le> code c \<and> code c \<le> 102 then Some (code c - 87)
      else if 65 \<le> code c \<and> code c \<le> 70 then Some (code c - 55)
      else None)"

definition unhex4 :: "char \<Rightarrow> char \<Rightarrow> char \<Rightarrow> char \<Rightarrow> char option" where
  "unhex4 a b c d =
     (case (hex_value a, hex_value b, hex_value c, hex_value d) of
        (Some x, Some y, Some z, Some w) \<Rightarrow>
          (if x = 0 \<and> y = 0 then Some (char_of (16 * z + w)) else None)
      | _ \<Rightarrow> None)"

definition unescape :: "char \<Rightarrow> char option" where
  "unescape e =
     (if e = CHR 0x22 then Some (CHR 0x22)
      else if e = CHR 0x5C then Some (CHR 0x5C)
      else if e = CHR ''/'' then Some (CHR ''/'')
      else if e = CHR ''b'' then Some (CHR 0x08)
      else if e = CHR ''f'' then Some (CHR 0x0C)
      else if e = CHR ''n'' then Some (CHR 0x0A)
      else if e = CHR ''r'' then Some (CHR 0x0D)
      else if e = CHR ''t'' then Some (CHR 0x09)
      else None)"

definition cons_result :: "char \<Rightarrow> (string \<times> string) option \<Rightarrow> (string \<times> string) option" where
  "cons_result c r = map_option (\<lambda>(s, rest). (c # s, rest)) r"

text \<open>The characters of a string after its opening quote, up to the closing quote.\<close>

fun parse_chars :: "string \<Rightarrow> (string \<times> string) option" where
  "parse_chars [] = None"
| "parse_chars (c # s) =
     (if c = CHR 0x22 then Some ([], s)
      else if c = CHR 0x5C then
        (case s of
           [] \<Rightarrow> None
         | e # cs \<Rightarrow>
             if e = CHR ''u'' then
               (case cs of
                  x # y # z # w # cs' \<Rightarrow>
                    (case unhex4 x y z w of
                       Some ch \<Rightarrow> cons_result ch (parse_chars cs')
                     | None \<Rightarrow> None)
                | _ \<Rightarrow> None)
             else
               (case unescape e of
                  Some ch \<Rightarrow> cons_result ch (parse_chars cs)
                | None \<Rightarrow> None))
      else if code c < 32 then None
      else cons_result c (parse_chars s))"

fun parse_value :: "nat \<Rightarrow> string \<Rightarrow> (qval \<times> string) option"
  and parse_elems :: "nat \<Rightarrow> string \<Rightarrow> qval list \<Rightarrow> (qval \<times> string) option"
  and parse_members :: "nat \<Rightarrow> string \<Rightarrow> (string \<times> qval) list \<Rightarrow> (qval \<times> string) option"
where
  "parse_value 0 s = None"
| "parse_value (Suc n) s =
     (case s of
        [] \<Rightarrow> None
      | c # r \<Rightarrow>
          if c = CHR 0x22 then map_option (\<lambda>(t, rest). (QStr t, rest)) (parse_chars r)
          else if c = CHR ''['' then
            (case r of
               [] \<Rightarrow> None
             | d # r' \<Rightarrow> if d = CHR '']'' then Some (QArr [], r') else parse_elems n r [])
          else if c = CHR ''{'' then
            (case r of
               [] \<Rightarrow> None
             | d # r' \<Rightarrow> if d = CHR ''}'' then Some (QObj [], r') else parse_members n r [])
          else None)"
| "parse_elems 0 s acc = None"
| "parse_elems (Suc n) s acc =
     (case parse_value n s of
        None \<Rightarrow> None
      | Some (v, r) \<Rightarrow>
          (case r of
             [] \<Rightarrow> None
           | c # r' \<Rightarrow>
               if c = CHR '','' then parse_elems n r' (acc @ [v])
               else if c = CHR '']'' then Some (QArr (acc @ [v]), r')
               else None))"
| "parse_members 0 s acc = None"
| "parse_members (Suc n) s acc =
     (case s of
        [] \<Rightarrow> None
      | c # r \<Rightarrow>
          if c \<noteq> CHR 0x22 then None
          else
            (case parse_chars r of
               None \<Rightarrow> None
             | Some (k, r1) \<Rightarrow>
                 (case r1 of
                    [] \<Rightarrow> None
                  | c1 # r2 \<Rightarrow>
                      if c1 \<noteq> CHR '':'' then None
                      else
                        (case parse_value n r2 of
                           None \<Rightarrow> None
                         | Some (v, r3) \<Rightarrow>
                             (case r3 of
                                [] \<Rightarrow> None
                              | c3 # r4 \<Rightarrow>
                                  if c3 = CHR '','' then parse_members n r4 (AList.update k v acc)
                                  else if c3 = CHR ''}'' then Some (QObj (AList.update k v acc), r4)
                                  else None)))))"

text \<open>Every call consumes a character, so the length of the text is fuel enough
  (lemma \<open>json_parse_stringify\<close> below).\<close>

definition json_parse :: "string \<Rightarrow> qval option" where
  "json_parse s =
     (case parse_value (length s) s of
        Some (v, []) \<Rightarrow> Some v
      | _ \<Rightarrow> None)"

section \<open>The rewriting, read on the query object\<close>

text \<open>
  What the rewriting of the serialised text does to one string of the query object, be it
  a key or a value.  A code unit below U+0020 is serialised as an escape that ends in a
  letter or a hexadecimal digit, so on its right it acts as a word character; every other
  code unit acts as itself.  On its left every escape starts with a backslash, a non-word
  character, as the escaped code units themselves are.
\<close>

definition ends_word :: "char \<Rightarrow> bool" where
  "ends_word c \<longleftrightarrow> is_word c \<or> code c < 32"

function rewrite_raw :: "bool \<Rightarrow> string \<Rightarrow> string" where
  "rewrite_raw pw [] = []"
| "rewrite_raw pw (c # cs) =
     (case match_at pw (c # cs) of
        Some kw \<Rightarrow> CHR ''$'' # kw @ rewrite_raw True (drop (length kw) (c # cs))
      | None \<Rightarrow> c # rewrite_raw (ends_word c) cs)"
  by pat_completeness auto
termination
  by (relation "measure (\<lambda>(pw, s). length s)") (auto dest: match_at_length)

fun rewrite_val :: "qval \<Rightarrow> qval" where
  "rewrite_val (QStr s) = QStr (rewrite_raw False s)"
| "rewrite_val (QArr xs) = QArr (map rewrite_val xs)"
| "rewrite_val (QObj kvs) =
     QObj (map (\<lambda>kv. (rewrite_raw False (fst kv), rewrite_val (snd kv))) kvs)"

text \<open>The objects of JavaScript have no repeated keys.\<close>

fun distinct_keys :: "qval \<Rightarrow> bool" where
  "distinct_keys (QStr s) = True"
| "distinct_keys (QArr xs) = (\<forall>x \<in> set xs. distinct_keys x)"
| "distinct_keys (QObj kvs) =
     (distinct (map fst kvs) \<and> (\<forall>kv \<in> set kvs. distinct_keys (snd kv)))"

text \<open>Fuel that suffices to parse the serialisation of a value.\<close>

fun fuel_of :: "qval \<Rightarrow> nat" where
  "fuel_of (QStr s) = 1"
| "fuel_of (QArr xs) = 1 + sum_list (map (\<lambda>x. 1 + fuel_of x) xs)"
| "fuel_of (QObj kvs) = 1 + sum_list (map (\<lambda>kv. 1 + fuel_of (snd kv)) kvs)"

section \<open>Coercions of the language\<close>

subsection \<open>parseInt(x, 10)\<close>

text \<open>ToString of a query value: an array is joined with commas, an object prints as
  \<open>[object Object]\<close>, a missing property as \<open>undefined\<close>.\<close>

fun to_string :: "qval \<Rightarrow> string" where
  "to_string (QStr s) = s"
| "to_string (QArr xs) = join '','' (map to_string xs)"
| "to_string (QObj kvs) = ''[object Object]''"

definition to_string_opt :: "qval option \<Rightarrow> string" where
  "to_string_opt x = (case x of None \<Rightarrow> ''undefined'' | Some v \<Rightarrow> to_string v)"

text \<open>
  The numbers of \<open>getBootcamps\<close> are whole: \<open>parseInt\<close> returns NaN or the double nearest to
  an integer, and sums, differences and products of whole doubles are the doubles nearest
  to the exact results.  \<open>Fin n\<close> is the finite double with value \<open>n\<close>.
\<close>

datatype jsint = INaN | IPosInf | INegInf | Fin int

text \<open>
  The double nearest to an integer, ties to the even significand.  A double has 53
  significant bits: \<open>shift_for n\<close> is the number of low bits of \<open>n\<close> that do not fit.  From
  \<open>2 ^ 1024\<close> on the result is an infinity.
\<close>

function shift_for :: "nat \<Rightarrow> nat" where
  "shift_for n = (if n < 2 ^ 53 then 0 else Suc (shift_for (n div 2)))"
  by pat_completeness auto
termination
  by (relation "measure (\<lambda>n. n)") auto

definition round_double :: "int \<Rightarrow> jsint" where
  "round_double i =
     (let n = nat \<bar>i\<bar>;
          e = shift_for n;
          q = n div 2 ^ e;
          r = n mod 2 ^ e;
          q' = (if 2 ^ e < 2 * r \<or> (2 * r = 2 ^ e \<and> odd q) then q + 1 else q);
          m = q' * 2 ^ e
      in if 2 ^ 1024 \<le> m then (if i < 0 then INegInf else IPosInf)
         else Fin (if i < 0 then - int m else int m))"

text \<open>Leading white space is skipped, a sign is read, then the longest run of decimal
  digits; without a digit the result is NaN.\<close>

definition parse_int :: "string \<Rightarrow> jsint" where
  "parse_int s =
     (let s1 = dropWhile is_space s;
          neg = (case s1 of [] \<Rightarrow> False | c # r \<Rightarrow> c = CHR ''-'');
          s2 = (case s1 of [] \<Rightarrow> [] | c # r \<Rightarrow> if c = CHR ''-'' \<or> c = CHR ''+'' then r else s1);
          ds = takeWhile is_digit s2
      in if ds = [] then INaN
         else round_double ((if neg then - 1 else 1) * int (digits_value 0 ds)))"

text \<open>\<open>n || d\<close> for a number \<open>n\<close>: NaN and zero are falsy.\<close>

definition or_default :: "jsint \<Rightarrow> jsint \<Rightarrow> jsint" where
  "or_default n d = (if n = INaN \<or> n = Fin 0 then d else n)"

subsection \<open>Arithmetic on whole numbers\<close>

definition js_negate :: "jsint \<Rightarrow> jsint" where
  "js_negate x =
     (case x of INaN \<Rightarrow> INaN | IPosInf \<Rightarrow> INegInf | INegInf \<Rightarrow> IPosInf | Fin a \<Rightarrow> Fin (- a))"

definition js_plus :: "jsint \<Rightarrow> jsint \<Rightarrow> jsint" where
  "js_plus x y =
     (case (x, y) of
        (Fin a, Fin b) \<Rightarrow> round_double (a + b)
      | (INaN, _) \<Rightarrow> INaN
      | (_, INaN) \<Rightarrow> INaN
      | (IPosInf, INegInf) \<Rightarrow> INaN
      | (INegInf, IPosInf) \<Rightarrow> INaN
      | (IPosInf, _) \<Rightarrow> IPosInf
      | (INegInf, _) \<Rightarrow> INegInf
      | (Fin a, z) \<Rightarrow> z)"

definition js_minus :: "jsint \<Rightarrow> jsint \<Rightarrow> jsint" where
  "js_minus x y = js_plus x (js_negate y)"

text \<open>The sign of a number that is not NaN: \<open>-1\<close>, \<open>0\<close> or \<open>1\<close>.\<close>

definition sign_of :: "jsint \<Rightarrow> int" where
  "sign_of x = (case x of INaN \<Rightarrow> 0 | IPosInf \<Rightarrow> 1 | INegInf \<Rightarrow> - 1 | Fin a \<Rightarrow> sgn a)"

definition js_times :: "jsint \<Rightarrow> jsint \<Rightarrow> jsint" where
  "js_times x y =
     (case (x, y) of
        (Fin a, Fin b) \<Rightarrow> round_double (a * b)
      | (INaN, _) \<Rightarrow> INaN
      | (_, INaN) \<Rightarrow> INaN
      | _ \<Rightarrow>
          if sign_of x * sign_of y = 0 then INaN
          else if 0 < sign_of x * sign_of y then IPosInf
          else INegInf)"

text \<open>\<open>x < y\<close>: false as soon as one side is NaN.\<close>

definition js_less :: "jsint \<Rightarrow> jsint \<Rightarrow> bool" where
  "js_less x y =
     (case (x, y) of
        (Fin a, Fin b) \<Rightarrow> a < b
      | (INaN, _) \<Rightarrow> False
      | (_, INaN) \<Rightarrow> False
      | (INegInf, INegInf) \<Rightarrow> False
      | (INegInf, _) \<Rightarrow> True
      | (_, INegInf) \<Rightarrow> False
      | (IPosInf, _) \<Rightarrow> False
      | (Fin a, IPosInf) \<Rightarrow> True)"

subsection \<open>Numbers that need not be whole\<close>

text \<open>\<open>x > y\<close> on numbers: false as soon as one side is NaN.\<close>

definition js_gt :: "jsnum \<Rightarrow> jsnum \<Rightarrow> bool" where
  "js_gt x y =
     (case (x, y) of
        (NaN, _) \<Rightarrow> False
      | (_, NaN) \<Rightarrow> False
      | (PosInf, PosInf) \<Rightarrow> False
      | (PosInf, _) \<Rightarrow> True
      | (NegInf, _) \<Rightarrow> False
      | (Num a, PosInf) \<Rightarrow> False
      | (Num a, NegInf) \<Rightarrow> True
      | (Num a, Num b) \<Rightarrow> b < a)"

subsection \<open>path.parse(p).ext (POSIX)\<close>

text \<open>
  Trailing slashes are dropped and the last path component is taken.  The extension runs
  from its last dot to its end; it is empty when there is no dot, when the only dot leads
  the component, and when the component is \<open>..\<close>.
\<close>

definition basename :: "string \<Rightarrow> string" where
  "basename p =
     rev (takeWhile (\<lambda>c. c \<noteq> CHR ''/'') (dropWhile (\<lambda>c. c = CHR ''/'') (rev p)))"

definition path_ext :: "string \<Rightarrow> string" where
  "path_ext p =
     (let b = basename p;
          ext = rev (takeWhile (\<lambda>c. c \<noteq> CHR ''.'') (rev b));
          stem = rev (tl (dropWhile (\<lambda>c. c \<noteq> CHR ''.'') (rev b)))
      in if CHR ''.'' \<notin> set b \<or> stem = [] \<or> b = ''..'' then []
         else CHR ''.'' # ext)"

subsection \<open>split and join\<close>

text \<open>\<open>s.split('.')\<close>: the pieces between the dots.\<close>

fun split_dot :: "string \<Rightarrow> string list" where
  "split_dot [] = [[]]"
| "split_dot (c # cs) =
     (if c = CHR ''.'' then [] # split_dot cs
      else (case split_dot cs of
              [] \<Rightarrow> [[c]]
            | p # ps \<Rightarrow> (c # p) # ps))"

text \<open>\<open>s.replace(/,/g, ' ')\<close>\<close>

definition commas_to_spaces :: "string \<Rightarrow> string" where
  "commas_to_spaces s = map (\<lambda>c. if c = CHR '','' then CHR '' '' else c) s"

section \<open>Requests, collaborators and results\<close>

text \<open>An uploaded file of \<open>req.files\<close>; a field that was sent several times holds an array.\<close>

record upload =
  file_name :: string
  file_mimetype :: string
  file_size :: nat

datatype files_entry = OneFile upload | ManyFiles "upload list"

text \<open>The route patterns bind \<open>id\<close>, \<open>zipcode\<close> and \<open>distance\<close>, so they are fields here.\<close>

record request =
  req_query :: "(string \<times> qval) list"
  req_id :: string
  req_zipcode :: string
  req_distance :: string
  req_files :: "(string \<times> files_entry) list option"

datatype exn = TypeError | SyntaxError | Rejection string

text \<open>The query that the chained calls on \<open>Bootcamp.find(...)\<close> build up.\<close>

record query =
  q_filter :: qval
  q_populate :: "string list"
  q_select :: "string option"
  q_sort :: "string option"
  q_skip :: "jsint option"
  q_limit :: "jsint option"

record geo =
  latitude :: real
  longitude :: real

text \<open>
  The collaborators are parameters of the handlers: the data-access object of the entity,
  the geocoding client, the move primitive of an uploaded file, the environment and the
  arithmetic of the engine on numbers that need not be whole.  An awaited call resolves
  (\<open>Inr\<close>) or rejects (\<open>Inl\<close>).  \<open>mv\<close> gives the error handed to its completion callback,
  if any.  \<open>to_number\<close> is the coercion of a string to a number, \<open>divide\<close> the operator
  \<open>/\<close> on doubles, \<open>today\<close> what \<open>new Date().toLocaleDateString('lv-LV')\<close> returns, and
  \<open>show_num\<close> prints a number inside a template literal.
\<close>

record world =
  findById :: "string \<Rightarrow> exn + doc option"
  countDocuments :: "qval option \<Rightarrow> exn + nat"
  exec_query :: "query \<Rightarrow> exn + doc list"
  find_docs :: "bson \<Rightarrow> exn + doc list"
  remove_doc :: "doc \<Rightarrow> exn + unit"
  findByIdAndUpdate :: "string \<Rightarrow> (string \<times> bson) list \<Rightarrow> exn + doc option"
  geocode :: "string \<Rightarrow> exn + geo list"
  mv :: "upload \<Rightarrow> string \<Rightarrow> string option"
  to_number :: "string \<Rightarrow> jsnum"
  divide :: "jsnum \<Rightarrow> jsnum \<Rightarrow> jsnum"
  file_max_upload_limit :: "string option"
  file_upload_path :: "string option"
  today :: string
  show_num :: "jsnum \<Rightarrow> string"

text \<open>The coercion to a number of an environment variable, which is a string or undefined.\<close>

definition to_number_opt :: "world \<Rightarrow> string option \<Rightarrow> jsnum" where
  "to_number_opt w x = (case x of None \<Rightarrow> NaN | Some s \<Rightarrow> to_number w s)"

text \<open>The calls a handler makes on its collaborators, in order.\<close>

datatype call =
    CFindById string
  | CCountDocuments "qval option"
  | CExec query
  | CFind bson
  | CRemove doc
  | CFindByIdAndUpdate string "(string \<times> bson) list"
  | CGeocode string
  | CMv string
  | CConsoleLog string

text \<open>Modelled from the spec: the error-response constructor \<open>ErrorResponse\<close> (utils/ErrorResponse,
  not under src/), "given \<open>(message, statusCode)\<close>": a message and status code pair.\<close>

datatype error_response = ErrorResponse string nat

record page_ref =
  pr_page :: jsint
  pr_limit :: jsint

record pagination =
  pg_next :: "page_ref option"
  pg_prev :: "page_ref option"

datatype payload = Docs "doc list" | EmptyObject | Text string

record envelope =
  success :: bool
  msg :: "string option"
  count :: "nat option"
  pagination :: "pagination option"
  payload :: payload

text \<open>
  How a handler ends: \<open>res.status(n).json(body)\<close>; \<open>next(new ErrorResponse(...))\<close>; or an
  exception or rejected await inside the handler.

  Modelled from the spec: the decorator \<open>asyncHandler\<close> (middleware/async, not under src/),
  "an async-wrapping decorator that forwards rejected operations to centralized error
  handling": such a failure is \<open>Forwarded\<close>, and the handler writes no response.  A rejection
  inside the completion callback of \<open>mv\<close> is outside the decorator: \<open>Unhandled\<close>.
\<close>

datatype outcome =
    Json nat envelope
  | Next error_response
  | Forwarded exn
  | Unhandled exn

record result =
  calls :: "call list"
  outcome :: outcome

section \<open>getBootcamps\<close>

definition removeFields :: "string list" where
  "removeFields = [''select'', ''sort'', ''page'', ''limit'']"

text \<open>Lines 14 to 32: the copy of \<open>req.query\<close> without the control keys, serialised,
  rewritten and parsed again; the result is the argument of \<open>Bootcamp.find\<close>.\<close>

definition reqQuery :: "(string \<times> qval) list \<Rightarrow> (string \<times> qval) list" where
  "reqQuery q = fold AList.delete removeFields q"

definition queryStr :: "(string \<times> qval) list \<Rightarrow> string" where
  "queryStr q = replace_ops False (stringify (QObj (reqQuery q)))"

definition find_filter :: "(string \<times> qval) list \<Rightarrow> qval option" where
  "find_filter q = json_parse (queryStr q)"

text \<open>A property of \<open>req.query\<close> in a condition: a missing one and the empty string are falsy.\<close>

definition truthy :: "qval option \<Rightarrow> bool" where
  "truthy x = (case x of None \<Rightarrow> False | Some (QStr s) \<Rightarrow> s \<noteq> [] | Some _ \<Rightarrow> True)"

text \<open>\<open>x.replace(/,/g, ' ')\<close> on a truthy property: only a string has the method.\<close>

definition replace_commas :: "qval option \<Rightarrow> exn + string" where
  "replace_commas x = (case x of Some (QStr s) \<Rightarrow> Inr (commas_to_spaces s) | _ \<Rightarrow> Inl TypeError)"

definition page_of :: "(string \<times> qval) list \<Rightarrow> jsint" where
  "page_of q = or_default (parse_int (to_string_opt (map_of q ''page''))) (Fin 1)"

definition limit_of :: "(string \<times> qval) list \<Rightarrow> jsint" where
  "limit_of q = or_default (parse_int (to_string_opt (map_of q ''limit''))) (Fin 20)"

text \<open>Lines 52, 53 and 62 to 76.\<close>

definition make_pagination :: "jsint \<Rightarrow> jsint \<Rightarrow> jsint \<Rightarrow> pagination" where
  "make_pagination page limit total_count =
     (let startIndex = js_times (js_minus page (Fin 1)) limit;
          endIndex = js_times page limit
      in \<lparr>pg_next = (if js_less endIndex total_count
                     then Some \<lparr>pr_page = js_plus page (Fin 1), pr_limit = limit\<rparr> else None),
          pg_prev = (if js_less (Fin 0) startIndex
                     then Some \<lparr>pr_page = js_minus page (Fin 1), pr_limit = limit\<rparr> else None)\<rparr>)"

text \<open>Lines 35 to 39 and 42 to 47: the projection, if any, and the sort order.\<close>

definition select_of :: "(string \<times> qval) list \<Rightarrow> exn + string option" where
  "select_of q =
     (if truthy (map_of q ''select'')
      then map_sum id Some (replace_commas (map_of q ''select''))
      else Inr None)"

definition sort_of :: "(string \<times> qval) list \<Rightarrow> exn + string" where
  "sort_of q =
     (if truthy (map_of q ''sort'')
      then replace_commas (map_of q ''sort'')
      else Inr ''-createdAt'')"

text \<open>The query is built by chained calls and runs when it is awaited on line 59, after
  \<open>countDocuments()\<close> on line 54.\<close>

definition getBootcamps :: "world \<Rightarrow> request \<Rightarrow> result" where
  "getBootcamps w req =
     (let q = req_query req in
      (case find_filter q of
         None \<Rightarrow> \<lparr>calls = [], outcome = Forwarded SyntaxError\<rparr>
       | Some flt \<Rightarrow>
      (case select_of q of
         Inl e \<Rightarrow> \<lparr>calls = [], outcome = Forwarded e\<rparr>
       | Inr select_fields \<Rightarrow>
      (case sort_of q of
         Inl e \<Rightarrow> \<lparr>calls = [], outcome = Forwarded e\<rparr>
       | Inr sortBy \<Rightarrow>
      (let page = page_of q;
           limit = limit_of q;
           startIndex = js_times (js_minus page (Fin 1)) limit
       in
      (case countDocuments w None of
         Inl e \<Rightarrow> \<lparr>calls = [CCountDocuments None], outcome = Forwarded e\<rparr>
       | Inr total_count \<Rightarrow>
      (let query = \<lparr>q_filter = flt, q_populate = [''courses''], q_select = select_fields,
                    q_sort = Some sortBy, q_skip = Some startIndex, q_limit = Some limit\<rparr>
       in
      (case exec_query w query of
         Inl e \<Rightarrow> \<lparr>calls = [CCountDocuments None, CExec query], outcome = Forwarded e\<rparr>
       | Inr bootcamps \<Rightarrow>
           \<lparr>calls = [CCountDocuments None, CExec query],
            outcome = Json 200
              \<lparr>success = True, msg = Some ''Show all bootcamps.'',
               count = Some (length bootcamps),
               pagination = Some (make_pagination page limit (Fin (int total_count))),
               payload = Docs bootcamps\<rparr>\<rparr>))))))))"

section \<open>deleteBootcamp\<close>

definition not_found :: "string \<Rightarrow> error_response" where
  "not_found ident = ErrorResponse (''Bootcamp not found with id of '' @ ident) 404"

definition deleteBootcamp :: "world \<Rightarrow> request \<Rightarrow> result" where
  "deleteBootcamp w req =
     (case findById w (req_id req) of
        Inl e \<Rightarrow> \<lparr>calls = [CFindById (req_id req)], outcome = Forwarded e\<rparr>
      | Inr None \<Rightarrow> \<lparr>calls = [CFindById (req_id req)], outcome = Next (not_found (req_id req))\<rparr>
      | Inr (Some bootcamp) \<Rightarrow>
          (case remove_doc w bootcamp of
             Inl e \<Rightarrow>
               \<lparr>calls = [CFindById (req_id req), CRemove bootcamp], outcome = Forwarded e\<rparr>
           | Inr u \<Rightarrow>
               \<lparr>calls = [CFindById (req_id req), CRemove bootcamp],
                outcome = Json 200
                  \<lparr>success = True, msg = Some (''Deleted a bootcamp. ID: '' @ req_id req),
                   count = None, pagination = None, payload = EmptyObject\<rparr>\<rparr>))"

section \<open>getBootcampsByDistance\<close>

text \<open>The filter document of line 173.\<close>

definition center_sphere :: "jsnum \<Rightarrow> jsnum \<Rightarrow> jsnum \<Rightarrow> bson" where
  "center_sphere lng lat radius =
     BObj [(''location'',
       BObj [(''$geoWithin'',
         BObj [(''$centerSphere'', BArr [BArr [BNum lng, BNum lat], BNum radius])])])]"

definition getBootcampsByDistance :: "world \<Rightarrow> request \<Rightarrow> result" where
  "getBootcampsByDistance w req =
     (let zipcode = req_zipcode req; distance = req_distance req in
      (case geocode w zipcode of
        Inl e \<Rightarrow> \<lparr>calls = [CGeocode zipcode], outcome = Forwarded e\<rparr>
      | Inr location \<Rightarrow>
          (case location of
             [] \<Rightarrow> \<lparr>calls = [CGeocode zipcode], outcome = Forwarded TypeError\<rparr>
           | g # rest \<Rightarrow>
               (let lat = Num (latitude g);
                    lng = Num (longitude g);
                    radius = divide w (to_number w distance) (Num 6378);
                    flt = center_sphere lng lat radius
                in
                (case find_docs w flt of
                   Inl e \<Rightarrow> \<lparr>calls = [CGeocode zipcode, CFind flt], outcome = Forwarded e\<rparr>
                 | Inr bootcamps \<Rightarrow>
                     \<lparr>calls = [CGeocode zipcode, CFind flt],
                      outcome = Json 200
                        \<lparr>success = True, msg = None, count = Some (length bootcamps),
                         pagination = None, payload = Docs bootcamps\<rparr>\<rparr>)))))"

section \<open>bootcampUploadPhoto\<close>

text \<open>A template literal prints a missing environment variable as \<open>undefined\<close>.\<close>

definition env_string :: "string option \<Rightarrow> string" where
  "env_string x = (case x of None \<Rightarrow> ''undefined'' | Some s \<Rightarrow> s)"

text \<open>Lines 221 to 224.\<close>

definition photo_name :: "world \<Rightarrow> doc \<Rightarrow> upload \<Rightarrow> string" where
  "photo_name w bootcamp file =
     ''BOOTCAMP_'' @ doc_id bootcamp @ ''_'' @ concat (split_dot (today w))
       @ path_ext (file_name file)"

definition too_large :: "world \<Rightarrow> error_response" where
  "too_large w =
     ErrorResponse
       (''Please upload an image less than ''
          @ show_num w (divide w (to_number_opt w (file_max_upload_limit w)) (Num 1000000)) @ ''mb.'')
       400"

definition bootcampUploadPhoto :: "world \<Rightarrow> request \<Rightarrow> result" where
  "bootcampUploadPhoto w req =
     (let ident = req_id req in
      (case findById w ident of
        Inl e \<Rightarrow> \<lparr>calls = [CFindById ident], outcome = Forwarded e\<rparr>
      | Inr None \<Rightarrow> \<lparr>calls = [CFindById ident], outcome = Next (not_found ident)\<rparr>
      | Inr (Some bootcamp) \<Rightarrow>
      (case req_files req of
        None \<Rightarrow>
          \<lparr>calls = [CFindById ident], outcome = Next (ErrorResponse ''Please upload a file.'' 400)\<rparr>
      | Some files \<Rightarrow>
      (case map_of files ''file'' of
        None \<Rightarrow> \<lparr>calls = [CFindById ident], outcome = Forwarded TypeError\<rparr>
      | Some (ManyFiles fs) \<Rightarrow> \<lparr>calls = [CFindById ident], outcome = Forwarded TypeError\<rparr>
      | Some (OneFile file) \<Rightarrow>
          if \<not> prefix ''image'' (file_mimetype file) then
            \<lparr>calls = [CFindById ident],
             outcome = Next (ErrorResponse ''Please upload an image file.'' 400)\<rparr>
          else if js_gt (Num (real (file_size file))) (to_number_opt w (file_max_upload_limit w)) then
            \<lparr>calls = [CFindById ident], outcome = Next (too_large w)\<rparr>
          else
            (let name = photo_name w bootcamp file;
                 dest = env_string (file_upload_path w) @ ''/'' @ name
             in
            (case mv w file dest of
               Some err \<Rightarrow>
                 \<lparr>calls = [CFindById ident, CMv dest, CConsoleLog err],
                  outcome = Next (ErrorResponse ''Problem with file upload. Try again later.'' 500)\<rparr>
             | None \<Rightarrow>
                 (let update = [(''photo'', BStr name)] in
                 (case findByIdAndUpdate w ident update of
                    Inl e \<Rightarrow>
                      \<lparr>calls = [CFindById ident, CMv dest, CFindByIdAndUpdate ident update],
                       outcome = Unhandled e\<rparr>
                  | Inr d \<Rightarrow>
                      \<lparr>calls = [CFindById ident, CMv dest, CFindByIdAndUpdate ident update],
                       outcome = Json 200
                         \<lparr>success = True, msg = Some ''Uploaded photo succesfully.'',
                          count = None, pagination = None, payload = Text name\<rparr>\<rparr>))))))))"

section \<open>The effect of the calls on the stored entities\<close>

text \<open>
  Modelled from the spec: the data-access object \<open>Bootcamp\<close> (models/Bootcamp, not under
  src/).  Delete "removes the entity"; the photo upload "persists the new filename onto the
  entity": \<open>findByIdAndUpdate\<close> sets the fields of its update document on the entity with
  the given id.  The other calls of the handlers read.
\<close>

definition persist :: "(string \<times> bson) list \<Rightarrow> doc \<Rightarrow> doc" where
  "persist upd d =
     d\<lparr>doc_fields := fold (\<lambda>kv. AList.update (fst kv) (snd kv)) upd (doc_fields d)\<rparr>"

fun apply_call :: "call \<Rightarrow> doc list \<Rightarrow> doc list" where
  "apply_call (CRemove b) db = filter (\<lambda>d. doc_id d \<noteq> doc_id b) db"
| "apply_call (CFindByIdAndUpdate i upd) db =
     map (\<lambda>d. if doc_id d = i then persist upd d else d) db"
| "apply_call c db = db"

definition store_after :: "call list \<Rightarrow> doc list \<Rightarrow> doc list" where
  "store_after cs db = fold apply_call cs db"

section \<open>Sample inputs\<close>

definition sample_doc :: doc where
  "sample_doc =
     \<lparr>doc_id = ''5d713995b721c3bb38c1f5d0'',
      doc_fields = [(''name'', BStr ''Devworks Bootcamp''), (''photo'', BStr ''no-photo.jpg'')]\<rparr>"

text \<open>The doubles nearest to \<open>-118.2\<close> and to \<open>10 / 6378\<close>, by their exact values.\<close>

definition double_minus_118_2 :: real where
  "double_minus_118_2 = - (8317585561799885 / 2 ^ 46)"

definition double_10_by_6378 :: real where
  "double_10_by_6378 = 3615307320811687 / 2 ^ 61"

definition sample_world :: world where
  "sample_world =
     \<lparr>findById =
        (\<lambda>i. if i = ''5d713995b721c3bb38c1f5d0'' then Inr (Some sample_doc) else Inr None),
      countDocuments = (\<lambda>f. Inr 100),
      exec_query = (\<lambda>q. Inr [sample_doc]),
      find_docs = (\<lambda>f. Inr [sample_doc]),
      remove_doc = (\<lambda>d. Inr ()),
      findByIdAndUpdate = (\<lambda>i u. Inr (Some sample_doc)),
      geocode =
        (\<lambda>z. if z = ''90012'' then Inr [\<lparr>latitude = 34, longitude = double_minus_118_2\<rparr>]
             else Inr []),
      mv = (\<lambda>f p. None),
      to_number =
        (\<lambda>s. if s = ''10'' then Num 10 else if s = ''1000000'' then Num 1000000 else NaN),
      divide =
        (\<lambda>x y. if x = Num 10 \<and> y = Num 6378 then Num double_10_by_6378
               else if x = Num 1000000 \<and> y = Num 1000000 then Num 1
               else NaN),
      file_max_upload_limit = Some ''1000000'',
      file_upload_path = Some ''./public/uploads'',
      today = ''2.11.2026.'',
      show_num = (\<lambda>n. ''1'')\<rparr>"

definition sample_request :: request where
  "sample_request =
     \<lparr>req_query = [], req_id = ''5d713995b721c3bb38c1f5d0'', req_zipcode = ''90012'',
      req_distance = ''10'', req_files = None\<rparr>"

definition sample_pdf :: upload where
  "sample_pdf = \<lparr>file_name = ''notes.pdf'', file_mimetype = ''application/pdf'', file_size = 52000\<rparr>"

definition sample_photo :: upload where
  "sample_photo = \<lparr>file_name = ''campus.jpg'', file_mimetype = ''image/jpeg'', file_size = 52000\<rparr>"

definition sample_upload_request :: request where
  "sample_upload_request = sample_request\<lparr>req_files := Some [(''file'', OneFile sample_photo)]\<rparr>"

section \<open>The rewriting of the serialised text, and its parse\<close>

text \<open>
  The rewriting of the serialised query object is the serialisation of the rewritten
  query object (\<open>replace_ops_stringify\<close>), the parser reads a serialisation back
  (\<open>parse_value_stringify\<close>), and the rewriting of a string is injective, so that distinct
  keys stay distinct (\<open>rewrite_raw_inject\<close>).  Together: \<open>find_filter_rewrite\<close>.
\<close>

declare replace_ops.simps(2) [simp del] rewrite_raw.simps(2) [simp del]

lemma match_at_SomeD:
  assumes "match_at pw s = Some kw"
  shows "kw \<in> set operators" and "prefix kw s"
    and "word_boundary True (drop (length kw) s)" and "word_boundary pw s"
proof -
  from assms have b: "word_boundary pw s"
    and f: "find (\<lambda>kw. prefix kw s \<and> word_boundary True (drop (length kw) s)) operators = Some kw"
    by (auto simp: match_at_def split: if_splits)
  from f obtain i where "i < length operators" "kw = operators ! i"
    "prefix kw s \<and> word_boundary True (drop (length kw) s)"
    by (auto simp: find_Some_iff)
  with b show "kw \<in> set operators" and "prefix kw s"
    and "word_boundary True (drop (length kw) s)" and "word_boundary pw s"
    by auto
qed

lemma operator_cases:
  "kw \<in> set operators \<longleftrightarrow> kw = ''gt'' \<or> kw = ''gte'' \<or> kw = ''lt'' \<or> kw = ''lte'' \<or> kw = ''in''"
  by (auto simp: operators_def)

lemma plain_escape: "32 \<le> code c \<Longrightarrow> c \<noteq> CHR 0x22 \<Longrightarrow> c \<noteq> CHR 0x5C \<Longrightarrow> escape_char c = [c]"
  by (auto simp: escape_char_def code_def)

lemma word_is_plain: "is_word c \<Longrightarrow> escape_char c = [c]"
  by (rule plain_escape) (auto simp: is_word_def code_def)

lemma operator_words: "kw \<in> set operators \<Longrightarrow> list_all is_word kw \<and> kw \<noteq> []"
  by (auto simp: operator_cases is_word_def code_def)

lemma match_at_nonword: "\<not> is_word c \<Longrightarrow> match_at pw (c # s) = None"
  by (auto simp: match_at_def find_None_iff operator_cases is_word_def code_def)

lemma replace_ops_nonword: "\<not> is_word c \<Longrightarrow> replace_ops pw (c # s) = c # replace_ops False s"
  by (simp add: match_at_nonword replace_ops.simps)

lemma rewrite_raw_nonword: "\<not> is_word c \<Longrightarrow> rewrite_raw pw (c # s) = c # rewrite_raw (ends_word c) s"
  by (simp add: match_at_nonword rewrite_raw.simps)

lemma match_at_after_word: "is_word c \<Longrightarrow> match_at True (c # s) = None"
  by (simp add: match_at_def)

lemma replace_ops_after_word: "is_word c \<Longrightarrow> replace_ops True (c # s) = c # replace_ops True s"
  by (simp add: match_at_after_word replace_ops.simps)

lemma replace_ops_no_match:
  "match_at pw (c # s) = None \<Longrightarrow> replace_ops pw (c # s) = c # replace_ops (is_word c) s"
  by (simp add: replace_ops.simps)

lemma match_at_other_letter:
  "c \<noteq> CHR ''g'' \<Longrightarrow> c \<noteq> CHR ''l'' \<Longrightarrow> c \<noteq> CHR ''i'' \<Longrightarrow> match_at pw (c # s) = None"
  by (auto simp: match_at_def find_None_iff operator_cases)

lemma is_word_hex_digit: "n < 16 \<Longrightarrow> is_word (hex_digit n)"
  by (auto simp: hex_digit_def is_word_def code_def)

lemma escape_cases:
  "escape_char c = [c] \<and> 32 \<le> code c \<and> c \<noteq> CHR 0x22 \<and> c \<noteq> CHR 0x5C
   \<or> (\<exists>l. escape_char c = [CHR 0x5C, l] \<and> \<not> is_word l \<and> \<not> ends_word c)
   \<or> (\<exists>l. escape_char c = [CHR 0x5C, l] \<and> is_word l \<and> l \<noteq> CHR ''g'' \<and> l \<noteq> CHR ''l'' \<and> l \<noteq> CHR ''i'' \<and> code c < 32)
   \<or> (\<exists>h1 h2. escape_char c = [CHR 0x5C, CHR ''u'', CHR ''0'', CHR ''0'', h1, h2] \<and> is_word h1 \<and> is_word h2 \<and> code c < 32)"
  unfolding escape_char_def ends_word_def
  by (auto simp: is_word_def code_def is_word_hex_digit[unfolded is_word_def code_def])


abbreviation (input) escaped :: "string \<Rightarrow> string" where
  "escaped s \<equiv> concat (map escape_char s)"

lemma escaped_words: "list_all is_word kw \<Longrightarrow> escaped kw = kw"
  by (induction kw) (simp_all add: word_is_plain)

lemma escaped_head_word:
  "is_word (hd (escape_char c @ t)) = is_word c"
proof -
  have bs: "\<not> is_word (CHR 0x5C)" by (simp add: is_word_def code_def)
  from escape_cases [of c] consider
    (plain) "escape_char c = [c]"
    | (esc) e where "escape_char c = CHR 0x5C # e" "\<not> is_word c"
    by (auto simp: ends_word_def is_word_def)
  then show ?thesis
  proof cases
    case plain
    then show ?thesis by simp
  next
    case esc
    with bs show ?thesis by simp
  qed
qed

lemma prefix_escaped:
  "list_all is_word kw \<Longrightarrow> prefix kw (escaped s @ CHR 0x22 # r) \<longleftrightarrow> prefix kw s"
proof (induction kw arbitrary: s)
  case Nil
  then show ?case by simp
next
  case (Cons k ks)
  then have k: "is_word k" and ks: "list_all is_word ks" by simp_all
  show ?case
  proof (cases s)
    case Nil
    with k show ?thesis by (auto simp: is_word_def code_def)
  next
    case (Cons c cs)
    from escape_cases [of c] consider
      (plain) "escape_char c = [c]"
      | (esc) t where "escape_char c = CHR 0x5C # t" "\<not> is_word c"
      by (auto simp: ends_word_def is_word_def)
    then show ?thesis
    proof cases
      case plain
      then show ?thesis using Cons Cons.IH [OF ks, of cs] by simp
    next
      case esc
      moreover have "k \<noteq> CHR 0x5C" using k by (auto simp: is_word_def code_def)
      moreover have "k \<noteq> c" using k esc by auto
      ultimately show ?thesis using Cons by simp
    qed
  qed
qed

lemma boundary_escaped: "word_boundary pw (escaped s @ CHR 0x22 # r) = word_boundary pw s"
proof (cases s)
  case Nil
  then show ?thesis by (simp add: is_word_def code_def)
next
  case (Cons c cs)
  have "escape_char c @ escaped cs @ CHR 0x22 # r \<noteq> []" by simp
  then obtain x xs where x: "escape_char c @ escaped cs @ CHR 0x22 # r = x # xs"
    by (cases "escape_char c @ escaped cs @ CHR 0x22 # r") auto
  with escaped_head_word [of c "escaped cs @ CHR 0x22 # r"] have "is_word x = is_word c" by simp
  with x Cons show ?thesis by simp
qed

lemma drop_escaped:
  assumes "list_all is_word kw" "prefix kw s"
  shows "drop (length kw) (escaped s @ t) = escaped (drop (length kw) s) @ t"
proof -
  from assms(2) obtain rest where s: "s = kw @ rest" by (auto simp: prefix_def)
  show ?thesis by (simp add: s escaped_words [OF assms(1)])
qed

lemma match_at_escaped: "match_at pw (escaped s @ CHR 0x22 # r) = match_at pw s"
proof -
  have "(prefix kw (escaped s @ CHR 0x22 # r)
          \<and> word_boundary True (drop (length kw) (escaped s @ CHR 0x22 # r)))
      = (prefix kw s \<and> word_boundary True (drop (length kw) s))"
    if "kw \<in> set operators" for kw
  proof -
    from that have w: "list_all is_word kw" by (simp add: operator_words)
    show ?thesis
      using prefix_escaped [OF w, of s r] drop_escaped [OF w, of s "CHR 0x22 # r"]
        boundary_escaped [of True "drop (length kw) s" r]
      by auto
  qed
  then have "find (\<lambda>kw. prefix kw (escaped s @ CHR 0x22 # r)
          \<and> word_boundary True (drop (length kw) (escaped s @ CHR 0x22 # r))) operators
      = find (\<lambda>kw. prefix kw s \<and> word_boundary True (drop (length kw) s)) operators"
    by (intro find_cong) auto
  then show ?thesis
    by (simp add: match_at_def boundary_escaped)
qed

lemma replace_ops_match:
  "match_at pw s = Some kw \<Longrightarrow> replace_ops pw s = CHR ''$'' # kw @ replace_ops True (drop (length kw) s)"
proof (cases s)
  case Nil
  assume m: "match_at pw s = Some kw"
  from match_at_SomeD(1,2) [OF m] Nil show ?thesis
    by (auto simp: operator_cases)
next
  case (Cons c cs)
  assume "match_at pw s = Some kw"
  with Cons show ?thesis by (simp add: replace_ops.simps)
qed

lemma replace_ops_escape:
  assumes "match_at pw (escape_char c @ t) = None"
  shows "replace_ops pw (escape_char c @ t) = escape_char c @ replace_ops (ends_word c) t"
proof -
  have bs: "\<not> is_word (CHR 0x5C)" by (simp add: is_word_def code_def)
  from escape_cases [of c] consider
    (plain) "escape_char c = [c]" "32 \<le> code c"
    | (sym) l where "escape_char c = [CHR 0x5C, l]" "\<not> is_word l" "\<not> ends_word c"
    | (letter) l where "escape_char c = [CHR 0x5C, l]" "is_word l" "l \<noteq> CHR ''g''"
        "l \<noteq> CHR ''l''" "l \<noteq> CHR ''i''" "code c < 32"
    | (hex) h1 h2 where "escape_char c = [CHR 0x5C, CHR ''u'', CHR ''0'', CHR ''0'', h1, h2]"
        "is_word h1" "is_word h2" "code c < 32"
    by blast
  then show ?thesis
  proof cases
    case plain
    from assms plain have "match_at pw (c # t) = None" by simp
    from replace_ops_no_match [OF this] plain show ?thesis
      by (auto simp: ends_word_def is_word_def)
  next
    case sym
    with bs show ?thesis by (simp add: replace_ops_nonword)
  next
    case letter
    with bs show ?thesis
      by (simp add: replace_ops_nonword replace_ops_no_match match_at_other_letter ends_word_def)
  next
    case hex
    have zero: "is_word (CHR ''0'')" and u: "is_word (CHR ''u'')"
      by (simp_all add: is_word_def code_def)
    have mu: "match_at False (CHR ''u'' # s) = None" for s
      by (simp add: match_at_other_letter)
    have "replace_ops pw (escape_char c @ t)
        = CHR 0x5C # replace_ops False (CHR ''u'' # CHR ''0'' # CHR ''0'' # h1 # h2 # t)"
      using hex(1) bs by (simp add: replace_ops_nonword)
    also have "\<dots> = CHR 0x5C # CHR ''u'' # replace_ops True (CHR ''0'' # CHR ''0'' # h1 # h2 # t)"
      using replace_ops_no_match [OF mu] u by simp
    also have "\<dots> = CHR 0x5C # CHR ''u'' # CHR ''0'' # CHR ''0'' # h1 # h2 # replace_ops True t"
      using zero hex(2,3) by (simp add: replace_ops_after_word)
    finally show ?thesis using hex(1,4) by (simp add: ends_word_def)
  qed
qed

lemma replace_ops_escaped:
  "replace_ops pw (escaped s @ CHR 0x22 # r)
     = escaped (rewrite_raw pw s) @ CHR 0x22 # replace_ops False r"
proof (induction pw s rule: rewrite_raw.induct)
  case (1 pw)
  show ?case by (simp add: replace_ops_nonword is_word_def code_def)
next
  case (2 pw c cs)
  show ?case
  proof (cases "match_at pw (c # cs)")
    case None
    then have "match_at pw (escape_char c @ escaped cs @ CHR 0x22 # r) = None"
      using match_at_escaped [of pw "c # cs" r] by simp
    from replace_ops_escape [OF this] 2(1) [OF None] None
    show ?thesis by (simp add: rewrite_raw.simps)
  next
    case (Some kw)
    from match_at_SomeD(1,2) [OF Some] have kw: "kw \<in> set operators"
      and pre: "prefix kw (c # cs)" .
    then have w: "list_all is_word kw" by (simp add: operator_words)
    have m: "match_at pw (escaped (c # cs) @ CHR 0x22 # r) = Some kw"
      using Some by (simp only: match_at_escaped)
    have "replace_ops pw (escaped (c # cs) @ CHR 0x22 # r)
        = CHR ''$'' # kw @ replace_ops True (escaped (drop (length kw) (c # cs)) @ CHR 0x22 # r)"
      using replace_ops_match [OF m] drop_escaped [OF w pre] by simp
    also have "\<dots> = CHR ''$'' # kw
        @ escaped (rewrite_raw True (drop (length kw) (c # cs))) @ CHR 0x22 # replace_ops False r"
      using 2(2) [OF Some] by simp
    also have "\<dots> = escaped (rewrite_raw pw (c # cs)) @ CHR 0x22 # replace_ops False r"
      using Some by (simp add: escaped_words [OF w] escape_char_def code_def rewrite_raw.simps)
    finally show ?thesis .
  qed
qed

lemma replace_ops_quote:
  "replace_ops pw (quote_json s @ r) = quote_json (rewrite_raw False s) @ replace_ops False r"
  by (simp add: quote_json_def replace_ops_nonword replace_ops_escaped is_word_def code_def)


lemma replace_ops_join:
  assumes item: "\<And>x pw r. x \<in> set xs \<Longrightarrow> replace_ops pw (f x @ r) = g x @ replace_ops False r"
    and c: "\<not> is_word c"
  shows "replace_ops pw (join '','' (map f xs) @ c # r)
    = join '','' (map g xs) @ c # replace_ops False r"
  using item
proof (induction xs arbitrary: pw)
  case Nil
  show ?case using c by (simp add: replace_ops_nonword)
next
  case (Cons x xs)
  have comma: "\<not> is_word (CHR '','')" by (simp add: is_word_def code_def)
  show ?case
  proof (cases xs)
    case Nil
    then show ?thesis using Cons.prems [of x] c by (simp add: replace_ops_nonword)
  next
    case (Cons y ys)
    have "replace_ops pw (join '','' (map f (x # xs)) @ c # r)
        = g x @ replace_ops False (CHR '','' # join '','' (map f xs) @ c # r)"
      using Cons Cons.prems [of x pw] by simp
    also have "\<dots> = g x @ CHR '','' # join '','' (map g xs) @ c # replace_ops False r"
      using Cons.IH [of False] Cons.prems comma by (simp add: replace_ops_nonword)
    finally show ?thesis using Cons by simp
  qed
qed

lemma replace_ops_stringify:
  "replace_ops pw (stringify v @ r) = stringify (rewrite_val v) @ replace_ops False r"
proof (induction v arbitrary: pw r rule: rewrite_val.induct)
  case (1 s)
  show ?case by (simp add: replace_ops_quote)
next
  case (2 xs)
  have open_b: "\<not> is_word (CHR ''['')" and close_b: "\<not> is_word (CHR '']'')"
    by (simp_all add: is_word_def code_def)
  have "replace_ops pw (stringify (QArr xs) @ r)
      = CHR ''['' # replace_ops False (join '','' (map stringify xs) @ CHR '']'' # r)"
    using open_b by (simp add: replace_ops_nonword)
  also have "\<dots> = CHR ''['' # join '','' (map (\<lambda>x. stringify (rewrite_val x)) xs)
      @ CHR '']'' # replace_ops False r"
    using replace_ops_join [of xs stringify "\<lambda>x. stringify (rewrite_val x)", OF _ close_b] 2
    by simp
  finally show ?case by (simp add: comp_def)
next
  case (3 kvs)
  have open_b: "\<not> is_word (CHR ''{'')" and close_b: "\<not> is_word (CHR ''}'')"
    and colon: "\<not> is_word (CHR '':'')"
    by (simp_all add: is_word_def code_def)
  let ?f = "\<lambda>kv. quote_json (fst kv) @ '':'' @ stringify (snd kv)"
  let ?g = "\<lambda>kv. quote_json (rewrite_raw False (fst kv)) @ '':'' @ stringify (rewrite_val (snd kv))"
  have item: "replace_ops pw (?f kv @ r) = ?g kv @ replace_ops False r"
    if "kv \<in> set kvs" for kv pw r
    using 3 [OF that] colon by (simp add: replace_ops_quote replace_ops_nonword)
  have "replace_ops pw (stringify (QObj kvs) @ r)
      = CHR ''{'' # replace_ops False (join '','' (map ?f kvs) @ CHR ''}'' # r)"
    using open_b by (simp add: replace_ops_nonword comp_def)
  also have "\<dots> = CHR ''{'' # join '','' (map ?g kvs) @ CHR ''}'' # replace_ops False r"
    using replace_ops_join [of kvs ?f ?g, OF item close_b] by simp
  finally show ?case by (simp add: comp_def)
qed

lemma replace_ops_stringify_whole:
  "replace_ops pw (stringify v) = stringify (rewrite_val v)"
  using replace_ops_stringify [of pw v "[]"] by simp


lemma hex_value_hex_digit: "n < 16 \<Longrightarrow> hex_value (hex_digit n) = Some n"
  by (auto simp: hex_value_def hex_digit_def code_def)

lemma parse_chars_escape:
  "parse_chars (escape_char c @ t) = cons_result c (parse_chars t)"
proof (cases "code c < 32")
  case True
  then have hi: "code c div 16 < 16" and lo: "code c mod 16 < 16" and z: "code c div 16 < 2"
    by auto
  have same: "char_of (code c) = c"
    by (simp add: code_def)
  have zero: "hex_value (CHR ''0'') = Some 0"
    by (simp add: hex_value_def code_def)
  have un: "unhex4 (CHR ''0'') (CHR ''0'') (hex_digit (code c div 16)) (hex_digit (code c mod 16))
      = Some c"
    by (simp add: unhex4_def zero hex_value_hex_digit [OF hi] hex_value_hex_digit [OF lo] same)
  from True have nq: "c \<noteq> CHR 0x22" "c \<noteq> CHR 0x5C"
    by (auto simp: code_def)
  show ?thesis
    using nq un by (auto simp: escape_char_def unescape_def)
next
  case False
  then show ?thesis
    by (auto simp: escape_char_def unescape_def code_def)
qed

lemma parse_chars_escaped:
  "parse_chars (concat (map escape_char s) @ CHR 0x22 # r) = Some (s, r)"
  by (induction s) (simp_all add: parse_chars_escape cons_result_def del: parse_chars.simps(2),
      simp)


lemma update_fresh: "k \<notin> fst ` set acc \<Longrightarrow> AList.update k v acc = acc @ [(k, v)]"
  by (induction acc) auto

lemma parse_elems_join:
  assumes item: "\<And>x n r. x \<in> set xs \<Longrightarrow> fuel_of x \<le> n
      \<Longrightarrow> parse_value n (stringify x @ r) = Some (x, r)"
    and "xs \<noteq> []"
    and "sum_list (map (\<lambda>x. 1 + fuel_of x) xs) \<le> m"
  shows "parse_elems m (join '','' (map stringify xs) @ CHR '']'' # r) acc
    = Some (QArr (acc @ xs), r)"
  using assms
proof (induction xs arbitrary: m acc)
  case Nil
  then show ?case by simp
next
  case (Cons x xs)
  from Cons.prems(3) obtain m' where m: "m = Suc m'" and fx: "fuel_of x \<le> m'"
    and rest: "sum_list (map (\<lambda>x. 1 + fuel_of x) xs) \<le> m'"
    by (cases m) auto
  show ?case
  proof (cases xs)
    case Nil
    then show ?thesis
      using Cons.prems(1) [of x m' "CHR '']'' # r"] fx by (simp add: m)
  next
    case (Cons y ys)
    have "parse_elems m' (join '','' (map stringify xs) @ CHR '']'' # r) (acc @ [x])
        = Some (QArr ((acc @ [x]) @ xs), r)"
      using Cons.IH [of m' "acc @ [x]"] Cons.prems(1) rest Cons by simp
    moreover have "parse_value m'
        (stringify x @ CHR '','' # join '','' (map stringify xs) @ CHR '']'' # r)
        = Some (x, CHR '','' # join '','' (map stringify xs) @ CHR '']'' # r)"
      using Cons.prems(1) [of x m'] fx by simp
    ultimately show ?thesis using Cons by (simp add: m)
  qed
qed

lemma parse_members_join:
  assumes item: "\<And>kv n r. kv \<in> set kvs \<Longrightarrow> fuel_of (snd kv) \<le> n
      \<Longrightarrow> parse_value n (stringify (snd kv) @ r) = Some (snd kv, r)"
    and "kvs \<noteq> []"
    and "sum_list (map (\<lambda>kv. 1 + fuel_of (snd kv)) kvs) \<le> m"
    and "distinct (map fst (acc @ kvs))"
  shows "parse_members m
      (join '','' (map (\<lambda>kv. quote_json (fst kv) @ '':'' @ stringify (snd kv)) kvs)
         @ CHR ''}'' # r) acc
    = Some (QObj (acc @ kvs), r)"
  using assms
proof (induction kvs arbitrary: m acc)
  case Nil
  then show ?case by simp
next
  case (Cons kv kvs)
  obtain k v where kv: "kv = (k, v)" by (cases kv)
  from Cons.prems(3) obtain m' where m: "m = Suc m'" and fv: "fuel_of v \<le> m'"
    and rest: "sum_list (map (\<lambda>kv. 1 + fuel_of (snd kv)) kvs) \<le> m'"
    by (cases m) (auto simp: kv)
  from Cons.prems(4) have fresh: "k \<notin> fst ` set acc"
    and dist: "distinct (map fst ((acc @ [(k, v)]) @ kvs))"
    by (auto simp: kv)
  have val: "parse_value m' (stringify v @ t) = Some (v, t)" for t
    using Cons.prems(1) [of kv m' t] fv by (simp add: kv)
  show ?case
  proof (cases kvs)
    case Nil
    then show ?thesis
      by (simp add: m kv quote_json_def parse_chars_escaped val update_fresh [OF fresh]
          del: parse_chars.simps)
  next
    case (Cons y ys)
    have "parse_members m'
        (join '','' (map (\<lambda>kv. quote_json (fst kv) @ '':'' @ stringify (snd kv)) kvs)
           @ CHR ''}'' # r) (acc @ [(k, v)])
        = Some (QObj ((acc @ [(k, v)]) @ kvs), r)"
      using Cons.IH [of m' "acc @ [(k, v)]"] Cons.prems(1) rest dist Cons by simp
    then show ?thesis using Cons
      by (simp add: m kv quote_json_def parse_chars_escaped val update_fresh [OF fresh]
          del: parse_chars.simps)
  qed
qed

lemma stringify_head:
  "\<exists>c t. stringify v = c # t \<and> c \<noteq> CHR '']'' \<and> c \<noteq> CHR ''}''"
  by (cases v) (simp_all add: quote_json_def)

lemma join_stringify_head:
  assumes "xs \<noteq> []"
  shows "\<exists>c t. join '','' (map stringify xs) @ r = c # t \<and> c \<noteq> CHR '']''"
proof -
  from assms obtain x ys where xs: "xs = x # ys" by (cases xs) auto
  from stringify_head [of x] obtain c t where "stringify x = c # t" "c \<noteq> CHR '']''" by blast
  then show ?thesis by (cases ys) (simp_all add: xs)
qed

lemma parse_value_stringify:
  "distinct_keys v \<Longrightarrow> fuel_of v \<le> n \<Longrightarrow> parse_value n (stringify v @ r) = Some (v, r)"
proof (induction v arbitrary: n r rule: rewrite_val.induct)
  case (1 s)
  then obtain m where "n = Suc m" by (cases n) auto
  then show ?case
    by (simp add: quote_json_def parse_chars_escaped del: parse_chars.simps)
next
  case (2 xs)
  from 2(3) obtain m where n: "n = Suc m"
    and m: "sum_list (map (\<lambda>x. 1 + fuel_of x) xs) \<le> m"
    by (cases n) auto
  show ?case
  proof (cases "xs = []")
    case True
    then show ?thesis by (simp add: n)
  next
    case False
    from join_stringify_head [OF False, of "CHR '']'' # r"] obtain c t where
      h: "join '','' (map stringify xs) @ CHR '']'' # r = c # t" "c \<noteq> CHR '']''"
      by blast
    have item: "parse_value k (stringify x @ t) = Some (x, t)"
      if "x \<in> set xs" "fuel_of x \<le> k" for x k t
      using 2(1) [OF that(1) _ that(2)] 2(2) that(1) by simp
    have "parse_elems m (join '','' (map stringify xs) @ CHR '']'' # r) []
        = Some (QArr xs, r)"
      using parse_elems_join [of xs m r "[]", OF item False m] by simp
    then show ?thesis using h by (simp add: n)
  qed
next
  case (3 kvs)
  let ?f = "\<lambda>kv. quote_json (fst kv) @ '':'' @ stringify (snd kv)"
  from 3(3) obtain m where n: "n = Suc m"
    and m: "sum_list (map (\<lambda>kv. 1 + fuel_of (snd kv)) kvs) \<le> m"
    by (cases n) auto
  show ?case
  proof (cases "kvs = []")
    case True
    then show ?thesis by (simp add: n)
  next
    case False
    then obtain kv ys where kvs: "kvs = kv # ys" by (cases kvs) auto
    have h: "\<exists>t. join '','' (map ?f kvs) @ CHR ''}'' # r = CHR 0x22 # t"
      by (cases ys) (simp_all add: kvs quote_json_def)
    then obtain t where t: "join '','' (map ?f kvs) @ CHR ''}'' # r = CHR 0x22 # t" by blast
    have item: "parse_value k (stringify (snd kv) @ t) = Some (snd kv, t)"
      if "kv \<in> set kvs" "fuel_of (snd kv) \<le> k" for kv k t
      using 3(1) [OF that(1) _ that(2)] 3(2) that(1) by simp
    have d: "distinct (map fst ([] @ kvs))" using 3(2) by simp
    have "parse_members m (join '','' (map ?f kvs) @ CHR ''}'' # r) [] = Some (QObj kvs, r)"
      using parse_members_join [of kvs m "[]" r, OF item False m d] by simp
    then show ?thesis using t by (simp add: n comp_def)
  qed
qed


lemma rewrite_raw_match:
  assumes "match_at pw s = Some kw"
  shows "rewrite_raw pw s = CHR ''$'' # kw @ rewrite_raw True (drop (length kw) s)"
proof (cases s)
  case Nil
  from match_at_SomeD(1,2) [OF assms] Nil show ?thesis
    by (auto simp: operator_cases)
next
  case (Cons c cs)
  with assms show ?thesis by (simp add: rewrite_raw.simps)
qed

lemma rewrite_raw_no_match:
  "match_at pw (c # s) = None \<Longrightarrow> rewrite_raw pw (c # s) = c # rewrite_raw (ends_word c) s"
  by (simp add: rewrite_raw.simps)

lemma match_at_True: "match_at True (c # s) = None"
  by (cases "is_word c") (simp_all add: match_at_after_word match_at_nonword)

lemma rewrite_raw_True: "rewrite_raw True (c # s) = c # rewrite_raw (ends_word c) s"
  by (simp add: rewrite_raw_no_match match_at_True)

lemma rewrite_raw_Nil_iff: "rewrite_raw pw s = [] \<longleftrightarrow> s = []"
proof (cases s)
  case Nil
  then show ?thesis by simp
next
  case (Cons c cs)
  then show ?thesis
    by (cases "match_at pw (c # cs)") (simp_all add: rewrite_raw.simps)
qed

lemma boundary_rewrite_raw_True:
  "word_boundary True (rewrite_raw True s) = word_boundary True s"
  by (cases s) (simp_all add: rewrite_raw_True)

lemma rewrite_raw_True_words:
  "list_all is_word ks \<Longrightarrow> rewrite_raw True t = ks @ x
     \<Longrightarrow> \<exists>t'. t = ks @ t' \<and> rewrite_raw True t' = x"
proof (induction ks arbitrary: t)
  case Nil
  then show ?case by simp
next
  case (Cons k ks)
  from Cons.prems(2) obtain c cs where t: "t = c # cs"
    by (cases t) auto
  from Cons.prems have c: "c = k" and k: "is_word k"
    and rest: "rewrite_raw True cs = ks @ x"
    by (auto simp: t rewrite_raw_True ends_word_def)
  from Cons.IH [OF _ rest] Cons.prems(1) obtain t' where "cs = ks @ t'" "rewrite_raw True t' = x"
    by auto
  then show ?case by (simp add: t c)
qed

lemma find_None_absurd: "find P xs = None \<Longrightarrow> x \<in> set xs \<Longrightarrow> P x \<Longrightarrow> False"
  by (simp add: find_None_iff)

lemma no_operator_head:
  assumes kw: "kw \<in> set operators"
    and out: "rewrite_raw False t = kw @ x"
    and b: "word_boundary True x"
  shows False
proof -
  from operator_words [OF kw] obtain k ks where kks: "kw = k # ks"
    and k: "is_word k" and ks: "list_all is_word ks"
    by (cases kw) auto
  have dollar: "\<not> is_word (CHR ''$'')" by (simp add: is_word_def code_def)
  with k have k_dollar: "k \<noteq> CHR ''$''" by auto
  from out kks have "t \<noteq> []" by auto
  then obtain c cs where t: "t = c # cs" by (cases t) auto
  show False
  proof (cases "match_at False t")
    case (Some kw')
    have "rewrite_raw False t = CHR ''$'' # kw' @ rewrite_raw True (drop (length kw') t)"
      by (rule rewrite_raw_match [OF Some])
    with out kks have "k = CHR ''$''" by simp
    with k_dollar show False by simp
  next
    case None
    then have step: "rewrite_raw False t = c # rewrite_raw (ends_word c) cs"
      unfolding t by (rule rewrite_raw_no_match)
    from out have "c # rewrite_raw (ends_word c) cs = k # ks @ x"
      unfolding step kks by (simp only: append_Cons)
    then have c: "c = k" and rest: "rewrite_raw (ends_word c) cs = ks @ x"
      by blast+
    from k have "ends_word k" by (simp add: ends_word_def)
    with rest c have "rewrite_raw True cs = ks @ x" by simp
    from rewrite_raw_True_words [OF ks this] obtain t' where
      cs: "cs = ks @ t'" and x: "rewrite_raw True t' = x" by blast
    have pre: "prefix kw t" by (simp add: t c cs kks)
    have "drop (length kw) t = t'" by (simp add: t c cs kks)
    moreover have "word_boundary True t'"
      using b x boundary_rewrite_raw_True [of t'] by simp
    ultimately have after: "word_boundary True (drop (length kw) t)" by simp
    have before: "word_boundary False t" using k by (simp add: t c)
    from None before have
      "find (\<lambda>kw. prefix kw t \<and> word_boundary True (drop (length kw) t)) operators = None"
      by (simp add: match_at_def)
    from find_None_absurd [OF this kw] pre after show False by blast
  qed
qed

lemma operator_prefix_unique:
  assumes "kw \<in> set operators" "kw' \<in> set operators" "kw @ x = kw' @ y"
    and "word_boundary True x" "word_boundary True y"
  shows "kw = kw' \<and> x = y"
proof -
  have e: "is_word (CHR ''e'')" by (simp add: is_word_def code_def)
  from assms(1,2) consider "kw = kw'" | "kw' = kw @ ''e''" | "kw = kw' @ ''e''"
    | "hd kw \<noteq> hd kw'" "kw \<noteq> []" "kw' \<noteq> []"
    by (auto simp: operator_cases)
  then show ?thesis
  proof cases
    case 1
    with assms(3) show ?thesis by simp
  next
    case 2
    with assms(3) have "x = CHR ''e'' # y" by simp
    with assms(4) e show ?thesis by simp
  next
    case 3
    with assms(3) have "y = CHR ''e'' # x" by simp
    with assms(5) e show ?thesis by simp
  next
    case 4
    with assms(3) show ?thesis by (cases kw; cases kw') auto
  qed
qed

lemma rewrite_raw_inject:
  "rewrite_raw pw s = rewrite_raw pw s' \<Longrightarrow> s = s'"
proof (induction pw s arbitrary: s' rule: rewrite_raw.induct)
  case (1 pw)
  then have "rewrite_raw pw s' = []" by simp
  then show ?case by (simp add: rewrite_raw_Nil_iff)
next
  case (2 pw c cs)
  have dollar: "\<not> ends_word (CHR ''$'')" by (simp add: ends_word_def is_word_def code_def)
  have "s' \<noteq> []"
  proof
    assume "s' = []"
    with 2(3) have "rewrite_raw pw (c # cs) = []" by simp
    then show False by (simp add: rewrite_raw_Nil_iff)
  qed
  then obtain c' cs' where s': "s' = c' # cs'" by (cases s') auto
  show ?case
  proof (cases "match_at pw (c # cs)")
    case None
    note left = rewrite_raw_no_match [OF None]
    show ?thesis
    proof (cases "match_at pw s'")
      case None
      then have right: "rewrite_raw pw s' = c' # rewrite_raw (ends_word c') cs'"
        by (simp add: s' rewrite_raw_no_match)
      from 2(3) have "c # rewrite_raw (ends_word c) cs = c' # rewrite_raw (ends_word c') cs'"
        unfolding left right .
      then have "c = c'" "rewrite_raw (ends_word c) cs = rewrite_raw (ends_word c) cs'"
        by auto
      with 2(1) [OF \<open>match_at pw (c # cs) = None\<close>] show ?thesis by (simp add: s')
    next
      case (Some kw)
      from match_at_SomeD [OF Some] have kw: "kw \<in> set operators"
        and after: "word_boundary True (drop (length kw) s')" by simp_all
      note right = rewrite_raw_match [OF Some]
      from 2(3) have "c # rewrite_raw (ends_word c) cs
          = CHR ''$'' # kw @ rewrite_raw True (drop (length kw) s')"
        unfolding left right .
      then have c: "c = CHR ''$''"
        and out: "rewrite_raw (ends_word c) cs = kw @ rewrite_raw True (drop (length kw) s')"
        by auto
      from out c dollar have "rewrite_raw False cs = kw @ rewrite_raw True (drop (length kw) s')"
        by simp
      from no_operator_head [OF kw this] after show ?thesis
        by (simp add: boundary_rewrite_raw_True)
    qed
  next
    case (Some kw)
    from match_at_SomeD [OF Some] have kw: "kw \<in> set operators"
      and pre: "prefix kw (c # cs)"
      and after: "word_boundary True (drop (length kw) (c # cs))" by simp_all
    note left = rewrite_raw_match [OF Some]
    show ?thesis
    proof (cases "match_at pw s'")
      case None
      then have right: "rewrite_raw pw s' = c' # rewrite_raw (ends_word c') cs'"
        by (simp add: s' rewrite_raw_no_match)
      from 2(3) have "CHR ''$'' # kw @ rewrite_raw True (drop (length kw) (c # cs))
          = c' # rewrite_raw (ends_word c') cs'"
        unfolding left right .
      then have c': "c' = CHR ''$''"
        and out: "rewrite_raw (ends_word c') cs' = kw @ rewrite_raw True (drop (length kw) (c # cs))"
        by auto
      from out c' dollar
      have "rewrite_raw False cs' = kw @ rewrite_raw True (drop (length kw) (c # cs))"
        by simp
      from no_operator_head [OF kw this] after show ?thesis
        by (simp add: boundary_rewrite_raw_True)
    next
      case (Some kw')
      from match_at_SomeD [OF Some] have kw': "kw' \<in> set operators"
        and pre': "prefix kw' s'"
        and after': "word_boundary True (drop (length kw') s')" by simp_all
      note right = rewrite_raw_match [OF Some]
      from 2(3) have "CHR ''$'' # kw @ rewrite_raw True (drop (length kw) (c # cs))
          = CHR ''$'' # kw' @ rewrite_raw True (drop (length kw') s')"
        unfolding left right .
      then have "kw @ rewrite_raw True (drop (length kw) (c # cs))
          = kw' @ rewrite_raw True (drop (length kw') s')"
        by simp
      moreover have "word_boundary True (rewrite_raw True (drop (length kw) (c # cs)))"
        using after by (simp only: boundary_rewrite_raw_True)
      moreover have "word_boundary True (rewrite_raw True (drop (length kw') s'))"
        using after' by (simp only: boundary_rewrite_raw_True)
      ultimately have both: "kw = kw' \<and> rewrite_raw True (drop (length kw) (c # cs))
          = rewrite_raw True (drop (length kw') s')"
        by (rule operator_prefix_unique [OF kw kw'])
      then have same: "kw = kw'"
        and rest: "rewrite_raw True (drop (length kw) (c # cs)) = rewrite_raw True (drop (length kw') s')"
        by blast+
      have tails: "drop (length kw) (c # cs) = drop (length kw') s'"
        by (rule 2(2) [OF \<open>match_at pw (c # cs) = Some kw\<close> rest])
      from pre have "c # cs = kw @ drop (length kw) (c # cs)" by (auto simp: prefix_def)
      also have "\<dots> = kw @ drop (length kw') s'" by (simp only: tails)
      also have "\<dots> = kw' @ drop (length kw') s'" by (simp only: same)
      also from pre' have "\<dots> = s'" by (auto simp: prefix_def)
      finally show ?thesis .
    qed
  qed
qed


lemma length_join_ge:
  assumes "\<And>x. x \<in> set xs \<Longrightarrow> g x \<le> length (f x)"
  shows "sum_list (map (\<lambda>x. 1 + g x) xs) \<le> length (join '','' (map f xs)) + 1"
  using assms
proof (induction xs)
  case Nil
  then show ?case by simp
next
  case (Cons x xs)
  have x: "g x \<le> length (f x)" using Cons.prems by simp
  have rest: "sum_list (map (\<lambda>x. 1 + g x) xs) \<le> length (join '','' (map f xs)) + 1"
    using Cons.IH Cons.prems by simp
  show ?case
  proof (cases xs)
    case Nil
    with x show ?thesis by simp
  next
    case (Cons y ys)
    with x rest show ?thesis by simp
  qed
qed

lemma fuel_le_length: "fuel_of v \<le> length (stringify v)"
proof (induction v rule: rewrite_val.induct)
  case (1 s)
  show ?case by (simp add: quote_json_def)
next
  case (2 xs)
  from length_join_ge [of xs fuel_of stringify] 2
  have "sum_list (map (\<lambda>x. 1 + fuel_of x) xs) \<le> length (join '','' (map stringify xs)) + 1"
    by simp
  then show ?case by simp
next
  case (3 kvs)
  let ?f = "\<lambda>kv. quote_json (fst kv) @ '':'' @ stringify (snd kv)"
  have "fuel_of (snd kv) \<le> length (?f kv)" if "kv \<in> set kvs" for kv
    using 3 [OF that] by simp
  from length_join_ge [of kvs "\<lambda>kv. fuel_of (snd kv)" ?f, OF this]
  have "sum_list (map (\<lambda>kv. 1 + fuel_of (snd kv)) kvs) \<le> length (join '','' (map ?f kvs)) + 1"
    by simp
  then show ?case by (simp add: comp_def)
qed

lemma json_parse_stringify: "distinct_keys v \<Longrightarrow> json_parse (stringify v) = Some v"
  using parse_value_stringify [of v "length (stringify v)" "[]"] fuel_le_length [of v]
  by (simp add: json_parse_def)

lemma distinct_keys_rewrite: "distinct_keys v \<Longrightarrow> distinct_keys (rewrite_val v)"
proof (induction v rule: rewrite_val.induct)
  case (1 s)
  show ?case by simp
next
  case (2 xs)
  then show ?case by simp
next
  case (3 kvs)
  have "inj (rewrite_raw False)"
    by (rule injI) (rule rewrite_raw_inject)
  then have i: "inj_on (rewrite_raw False) (set (map fst kvs))"
    by (rule inj_on_subset) simp
  have d: "distinct (map fst kvs)" using 3(2) by simp
  have "distinct (map (rewrite_raw False) (map fst kvs))"
    by (rule iffD2 [OF distinct_map]) (intro conjI d i)
  then have keys: "distinct (map fst (map (\<lambda>kv. (rewrite_raw False (fst kv), rewrite_val (snd kv))) kvs))"
    by (simp add: comp_def)
  have vals: "distinct_keys (rewrite_val (snd kv))" if "kv \<in> set kvs" for kv
    using 3(1) [OF that] 3(2) that by simp
  show ?case
    unfolding rewrite_val.simps distinct_keys.simps using keys vals by auto
qed

lemma reqQuery_filter:
  "reqQuery q = filter (\<lambda>kv. fst kv \<notin> set removeFields) q"
proof -
  have del: "AList.delete k xs = filter (\<lambda>kv. fst kv \<noteq> k) xs" for k and xs :: "(string \<times> qval) list"
    by (induction xs) auto
  show ?thesis
    by (simp add: reqQuery_def removeFields_def del conj_commute conj_left_commute)
qed

lemma distinct_keys_reqQuery:
  "distinct_keys (QObj q) \<Longrightarrow> distinct_keys (QObj (reqQuery q))"
  by (simp add: reqQuery_filter distinct_map_filter)

lemma find_filter_rewrite:
  assumes "distinct_keys (QObj q)"
  shows "find_filter q = Some (rewrite_val (QObj (reqQuery q)))"
proof -
  have "queryStr q = stringify (rewrite_val (QObj (reqQuery q)))"
    unfolding queryStr_def by (rule replace_ops_stringify_whole)
  moreover have "distinct_keys (rewrite_val (QObj (reqQuery q)))"
    using assms by (intro distinct_keys_rewrite distinct_keys_reqQuery)
  ultimately show ?thesis
    unfolding find_filter_def by (simp only: json_parse_stringify)
qed

section \<open>Delete\<close>

text \<open>
  C6.  When \<open>findById\<close> resolves to no entity, \<open>deleteBootcamp\<close> hands a 404 error whose
  message contains the id to \<open>next\<close>; its only call is the lookup, \<open>remove\<close> is never invoked
  and the stored entities are unchanged.  When \<open>findById\<close> resolves to an entity, \<open>remove\<close>
  is invoked on it, and once that resolves the handler answers 200 with the empty object
  as data.
\<close>

theorem deleteBootcamp_not_found_or_removed:
  "(findById w (req_id req) = Inr None \<longrightarrow>
      outcome (deleteBootcamp w req)
        = Next (ErrorResponse (''Bootcamp not found with id of '' @ req_id req) 404)
      \<and> sublist (req_id req) (''Bootcamp not found with id of '' @ req_id req)
      \<and> calls (deleteBootcamp w req) = [CFindById (req_id req)]
      \<and> (\<forall>b. CRemove b \<notin> set (calls (deleteBootcamp w req)))
      \<and> store_after (calls (deleteBootcamp w req)) db = db)
   \<and> (findById w (req_id req) = Inr (Some b) \<longrightarrow>
      CRemove b \<in> set (calls (deleteBootcamp w req))
      \<and> (remove_doc w b = Inr () \<longrightarrow>
           outcome (deleteBootcamp w req)
             = Json 200 \<lparr>success = True, msg = Some (''Deleted a bootcamp. ID: '' @ req_id req),
                         count = None, pagination = None, payload = EmptyObject\<rparr>))"
proof -
  have contains: "sublist (req_id req) (''Bootcamp not found with id of '' @ req_id req)"
    by (rule sublist_append_leftI)
  show ?thesis
    using contains
    by (auto simp: deleteBootcamp_def not_found_def store_after_def
        simp del: append.simps split: sum.splits)
qed

theorem deleteBootcamp_not_found_or_removed_witness:
  "findById sample_world (req_id (sample_request\<lparr>req_id := ''42''\<rparr>)) = Inr None
   \<and> outcome (deleteBootcamp sample_world (sample_request\<lparr>req_id := ''42''\<rparr>))
        = Next (ErrorResponse ''Bootcamp not found with id of 42'' 404)
   \<and> calls (deleteBootcamp sample_world (sample_request\<lparr>req_id := ''42''\<rparr>)) = [CFindById ''42'']
   \<and> store_after (calls (deleteBootcamp sample_world (sample_request\<lparr>req_id := ''42''\<rparr>)))
        [sample_doc] = [sample_doc]
   \<and> findById sample_world (req_id sample_request) = Inr (Some sample_doc)
   \<and> remove_doc sample_world sample_doc = Inr ()
   \<and> CRemove sample_doc \<in> set (calls (deleteBootcamp sample_world sample_request))
   \<and> outcome (deleteBootcamp sample_world sample_request)
        = Json 200 \<lparr>success = True,
                    msg = Some ''Deleted a bootcamp. ID: 5d713995b721c3bb38c1f5d0'',
                    count = None, pagination = None, payload = EmptyObject\<rparr>"
proof -
  have absent: "findById sample_world (req_id (sample_request\<lparr>req_id := ''42''\<rparr>)) = Inr None"
    by (simp add: sample_world_def sample_request_def)
  have present: "findById sample_world (req_id sample_request) = Inr (Some sample_doc)"
    by (simp add: sample_world_def sample_request_def)
  have resolves: "remove_doc sample_world sample_doc = Inr ()"
    by (simp add: sample_world_def)
  have ident: "req_id sample_request = ''5d713995b721c3bb38c1f5d0''"
    by (simp add: sample_request_def)
  show ?thesis
    using absent present resolves
      deleteBootcamp_not_found_or_removed
        [of sample_world "sample_request\<lparr>req_id := ''42''\<rparr>" "[sample_doc]" sample_doc]
      deleteBootcamp_not_found_or_removed [of sample_world sample_request "[]" sample_doc]
    by (simp add: ident store_after_def)
qed

section \<open>Geo-radius search\<close>

text \<open>
  C9.  \<open>getBootcampsByDistance\<close> reads element 0 of the geocoder's result without a guard.
  When the result has a first element, the handler goes on to the spatial query with that
  element's coordinates.  When the result is empty, reading \<open>latitude\<close> of \<open>undefined\<close> throws:
  the geocoder call is the only call, no spatial query is issued, the handler writes no
  response, and the TypeError is forwarded to the central error handling.
\<close>

theorem geocode_first_result_unguarded:
  "(geocode w (req_zipcode req) = Inr (g # gs) \<longrightarrow>
      calls (getBootcampsByDistance w req)
        = [CGeocode (req_zipcode req),
           CFind (center_sphere (Num (longitude g)) (Num (latitude g))
                    (divide w (to_number w (req_distance req)) (Num 6378)))])
   \<and> (geocode w (req_zipcode req) = Inr [] \<longrightarrow>
      calls (getBootcampsByDistance w req) = [CGeocode (req_zipcode req)]
      \<and> (\<forall>f. CFind f \<notin> set (calls (getBootcampsByDistance w req)))
      \<and> outcome (getBootcampsByDistance w req) = Forwarded TypeError
      \<and> (\<forall>n body. outcome (getBootcampsByDistance w req) \<noteq> Json n body))"
  by (auto simp: getBootcampsByDistance_def Let_def split: sum.splits)

lemma sample_geocode:
  "geocode sample_world (req_zipcode sample_request)
     = Inr [\<lparr>latitude = 34, longitude = double_minus_118_2\<rparr>]"
  "req_zipcode sample_request = ''90012''"
  "to_number sample_world (req_distance sample_request) = Num 10"
  "divide sample_world (Num 10) (Num 6378) = Num double_10_by_6378"
  by (simp_all add: sample_world_def sample_request_def)

theorem geocode_first_result_unguarded_witness:
  "geocode sample_world (req_zipcode sample_request)
     = Inr [\<lparr>latitude = 34, longitude = double_minus_118_2\<rparr>]
   \<and> calls (getBootcampsByDistance sample_world sample_request)
       = [CGeocode ''90012'',
          CFind (center_sphere (Num double_minus_118_2) (Num 34) (Num double_10_by_6378))]
   \<and> geocode sample_world (req_zipcode (sample_request\<lparr>req_zipcode := ''00000''\<rparr>)) = Inr []
   \<and> calls (getBootcampsByDistance sample_world (sample_request\<lparr>req_zipcode := ''00000''\<rparr>))
       = [CGeocode ''00000'']
   \<and> outcome (getBootcampsByDistance sample_world (sample_request\<lparr>req_zipcode := ''00000''\<rparr>))
       = Forwarded TypeError"
proof -
  have none: "geocode sample_world (req_zipcode (sample_request\<lparr>req_zipcode := ''00000''\<rparr>)) = Inr []"
    by (simp add: sample_world_def)
  show ?thesis
    using sample_geocode(1) none
      geocode_first_result_unguarded
        [of sample_world sample_request "\<lparr>latitude = 34, longitude = double_minus_118_2\<rparr>" "[]"]
      geocode_first_result_unguarded
        [of sample_world "sample_request\<lparr>req_zipcode := ''00000''\<rparr>"
          "\<lparr>latitude = 34, longitude = double_minus_118_2\<rparr>" "[]"]
    by (simp add: sample_geocode(2,3,4))
qed



section \<open>Photo upload\<close>

text \<open>
  C7.  On an existing entity, with one file attached under \<open>file\<close> whose MIME type does not
  start with \<open>image\<close>, \<open>bootcampUploadPhoto\<close> hands a 400 error to \<open>next\<close>; the lookup is its
  only call, so \<open>file.mv\<close> is never invoked.
\<close>

theorem upload_non_image_rejected:
  assumes "findById w (req_id req) = Inr (Some b)"
    and "req_files req = Some files"
    and "map_of files ''file'' = Some (OneFile f)"
    and "\<not> prefix ''image'' (file_mimetype f)"
  shows "outcome (bootcampUploadPhoto w req) = Next (ErrorResponse ''Please upload an image file.'' 400)
    \<and> calls (bootcampUploadPhoto w req) = [CFindById (req_id req)]
    \<and> (\<forall>p. CMv p \<notin> set (calls (bootcampUploadPhoto w req)))"
  using assms by (simp add: bootcampUploadPhoto_def)

theorem upload_non_image_rejected_witness:
  "findById sample_world (req_id (sample_request\<lparr>req_files := Some [(''file'', OneFile sample_pdf)]\<rparr>)) = Inr (Some sample_doc)
   \<and> \<not> prefix ''image'' (file_mimetype sample_pdf)
   \<and> outcome (bootcampUploadPhoto sample_world (sample_request\<lparr>req_files := Some [(''file'', OneFile sample_pdf)]\<rparr>))
       = Next (ErrorResponse ''Please upload an image file.'' 400)
   \<and> (\<forall>p. CMv p \<notin> set (calls (bootcampUploadPhoto sample_world
         (sample_request\<lparr>req_files := Some [(''file'', OneFile sample_pdf)]\<rparr>))))"
proof -
  let ?req = "sample_request\<lparr>req_files := Some [(''file'', OneFile sample_pdf)]\<rparr>"
  have found: "findById sample_world (req_id ?req) = Inr (Some sample_doc)"
    by (simp add: sample_world_def sample_request_def)
  have attached: "req_files ?req = Some [(''file'', OneFile sample_pdf)]"
    by simp
  have single: "map_of [(''file'', OneFile sample_pdf)] ''file'' = Some (OneFile sample_pdf)"
    by simp
  have no_image: "\<not> prefix ''image'' (file_mimetype sample_pdf)"
    by (simp add: sample_pdf_def)
  show ?thesis
    using upload_non_image_rejected [OF found attached single no_image] found no_image
    by simp
qed


lemma sample_upload_passes:
  "findById sample_world (req_id sample_upload_request) = Inr (Some sample_doc)"
  "req_files sample_upload_request = Some [(''file'', OneFile sample_photo)]"
  "map_of [(''file'', OneFile sample_photo)] ''file'' = Some (OneFile sample_photo)"
  "prefix ''image'' (file_mimetype sample_photo)"
  "\<not> js_gt (Num (real (file_size sample_photo)))
      (to_number_opt sample_world (file_max_upload_limit sample_world))"
  by (simp_all add: sample_world_def sample_upload_request_def sample_request_def sample_photo_def
      to_number_opt_def js_gt_def)

lemma sample_photo_name:
  "photo_name sample_world sample_doc sample_photo = ''BOOTCAMP_5d713995b721c3bb38c1f5d0_2112026.jpg''"
  by (simp add: photo_name_def sample_world_def sample_doc_def sample_photo_def path_ext_def
      basename_def)









text \<open>
  C10.  On a photo upload whose move completes without error, the calls are the lookup,
  the move and one \<open>findByIdAndUpdate\<close> whose update document holds exactly the photo file
  name.  On the stored entities this changes nothing but the \<open>photo\<close> field of the entity
  with the request's id: every entity keeps its id, every other field of every entity is
  unchanged, and entities with another id are unchanged.
\<close>

theorem upload_updates_photo_only:
  assumes "findById w (req_id req) = Inr (Some b)"
    and "req_files req = Some files"
    and "map_of files ''file'' = Some (OneFile f)"
    and "prefix ''image'' (file_mimetype f)"
    and "\<not> js_gt (Num (real (file_size f))) (to_number_opt w (file_max_upload_limit w))"
    and "mv w f (env_string (file_upload_path w) @ ''/'' @ photo_name w b f) = None"
  shows "calls (bootcampUploadPhoto w req)
      = [CFindById (req_id req),
         CMv (env_string (file_upload_path w) @ ''/'' @ photo_name w b f),
         CFindByIdAndUpdate (req_id req) [(''photo'', BStr (photo_name w b f))]]
    \<and> map doc_id (store_after (calls (bootcampUploadPhoto w req)) db) = map doc_id db
    \<and> (\<forall>i k. i < length db \<and> k \<noteq> ''photo'' \<longrightarrow>
          map_of (doc_fields (store_after (calls (bootcampUploadPhoto w req)) db ! i)) k
            = map_of (doc_fields (db ! i)) k)
    \<and> (\<forall>i. i < length db \<and> doc_id (db ! i) \<noteq> req_id req \<longrightarrow>
          store_after (calls (bootcampUploadPhoto w req)) db ! i = db ! i)
    \<and> (\<forall>i. i < length db \<and> doc_id (db ! i) = req_id req \<longrightarrow>
          map_of (doc_fields (store_after (calls (bootcampUploadPhoto w req)) db ! i)) ''photo''
            = Some (BStr (photo_name w b f)))"
proof -
  let ?upd = "[(''photo'', BStr (photo_name w b f))]"
  let ?cs = "[CFindById (req_id req),
         CMv (env_string (file_upload_path w) @ ''/'' @ photo_name w b f),
         CFindByIdAndUpdate (req_id req) ?upd]"
  have cs: "calls (bootcampUploadPhoto w req) = ?cs"
    using assms by (simp add: bootcampUploadPhoto_def Let_def split: sum.splits)
  have after: "store_after ?cs db
      = map (\<lambda>d. if doc_id d = req_id req then persist ?upd d else d) db"
    by (simp add: store_after_def)
  have ident: "doc_id (persist ?upd d) = doc_id d" for d
    by (simp add: persist_def)
  have frame: "k \<noteq> ''photo'' \<Longrightarrow> map_of (doc_fields (persist ?upd d)) k = map_of (doc_fields d) k"
    for d k
    by (simp add: persist_def update_conv')
  have photo: "map_of (doc_fields (persist ?upd d)) ''photo'' = Some (BStr (photo_name w b f))" for d
    by (simp add: persist_def update_conv')
  have ids: "map doc_id (store_after ?cs db) = map doc_id db"
    unfolding after by (induction db) (simp_all add: ident)
  show ?thesis
    unfolding cs using ids by (simp add: after frame photo del: append.simps)
qed


theorem upload_updates_photo_only_witness:
  "findById sample_world (req_id sample_upload_request) = Inr (Some sample_doc)
   \<and> prefix ''image'' (file_mimetype sample_photo)
   \<and> \<not> js_gt (Num (real (file_size sample_photo))) (to_number_opt sample_world (file_max_upload_limit sample_world))
   \<and> mv sample_world sample_photo
        (env_string (file_upload_path sample_world) @ ''/''
           @ photo_name sample_world sample_doc sample_photo) = None
   \<and> calls (bootcampUploadPhoto sample_world sample_upload_request)
       = [CFindById ''5d713995b721c3bb38c1f5d0'',
          CMv ''./public/uploads/BOOTCAMP_5d713995b721c3bb38c1f5d0_2112026.jpg'',
          CFindByIdAndUpdate ''5d713995b721c3bb38c1f5d0''
            [(''photo'', BStr ''BOOTCAMP_5d713995b721c3bb38c1f5d0_2112026.jpg'')]]
   \<and> map_of (doc_fields (store_after (calls (bootcampUploadPhoto sample_world sample_upload_request))
          [sample_doc] ! 0)) ''name'' = Some (BStr ''Devworks Bootcamp'')
   \<and> map_of (doc_fields (store_after (calls (bootcampUploadPhoto sample_world sample_upload_request))
          [sample_doc] ! 0)) ''photo''
       = Some (BStr ''BOOTCAMP_5d713995b721c3bb38c1f5d0_2112026.jpg'')"
proof -
  have moved: "mv sample_world sample_photo
        (env_string (file_upload_path sample_world) @ ''/''
           @ photo_name sample_world sample_doc sample_photo) = None"
    by (simp add: sample_world_def)
  have dest: "env_string (file_upload_path sample_world) = ''./public/uploads''"
    by (simp add: env_string_def sample_world_def)
  have ident: "req_id sample_upload_request = ''5d713995b721c3bb38c1f5d0''"
    "doc_id sample_doc = ''5d713995b721c3bb38c1f5d0''"
    by (simp_all add: sample_upload_request_def sample_request_def sample_doc_def)
  have name: "map_of (doc_fields sample_doc) ''name'' = Some (BStr ''Devworks Bootcamp'')"
    by (simp add: sample_doc_def)
  note main = upload_updates_photo_only [OF sample_upload_passes moved, of "[sample_doc]"]
  from main have cs: "calls (bootcampUploadPhoto sample_world sample_upload_request)
       = [CFindById ''5d713995b721c3bb38c1f5d0'',
          CMv ''./public/uploads/BOOTCAMP_5d713995b721c3bb38c1f5d0_2112026.jpg'',
          CFindByIdAndUpdate ''5d713995b721c3bb38c1f5d0''
            [(''photo'', BStr ''BOOTCAMP_5d713995b721c3bb38c1f5d0_2112026.jpg'')]]"
    by (simp add: sample_photo_name dest ident)
  have frame: "\<forall>i k. i < length [sample_doc] \<and> k \<noteq> ''photo'' \<longrightarrow>
      map_of (doc_fields (store_after
        (calls (bootcampUploadPhoto sample_world sample_upload_request)) [sample_doc] ! i)) k
      = map_of (doc_fields ([sample_doc] ! i)) k"
    by (rule main [THEN conjunct2, THEN conjunct2, THEN conjunct1])
  have other: "map_of (doc_fields (store_after
        (calls (bootcampUploadPhoto sample_world sample_upload_request)) [sample_doc] ! 0)) ''name''
      = map_of (doc_fields ([sample_doc] ! 0)) ''name''"
    using frame [rule_format, of 0 "''name''"] by simp
  have set_photo: "\<forall>i. i < length [sample_doc] \<and> doc_id ([sample_doc] ! i) = req_id sample_upload_request
      \<longrightarrow> map_of (doc_fields (store_after
        (calls (bootcampUploadPhoto sample_world sample_upload_request)) [sample_doc] ! i)) ''photo''
      = Some (BStr (photo_name sample_world sample_doc sample_photo))"
    by (rule main [THEN conjunct2, THEN conjunct2, THEN conjunct2, THEN conjunct2])
  have photo: "map_of (doc_fields (store_after
        (calls (bootcampUploadPhoto sample_world sample_upload_request)) [sample_doc] ! 0)) ''photo''
      = Some (BStr (photo_name sample_world sample_doc sample_photo))"
    using set_photo [rule_format, of 0] by (simp add: ident)
  show ?thesis
    using sample_upload_passes(1,4,5) moved cs other photo
    by (simp only: name sample_photo_name nth_Cons_0 simp_thms)
qed

end
